theory Spec2Isabelle
  imports Main "HOL-Library.Word" "HOL-Library.Signed_Division"
begin

section \<open>Machine integers of \<^verbatim>\<open>interval.cpp\<close>\<close>

text \<open>
  The source computes with two C++ integer types: \<^verbatim>\<open>int\<close> (32 bits, two's complement)
  and \<^verbatim>\<open>std::size_t\<close> (64 bits, unsigned). Both are words here. Arithmetic on words
  wraps; \<open>sint\<close> reads an \<^verbatim>\<open>int\<close>, \<open>uint\<close> reads a \<^verbatim>\<open>std::size_t\<close>.
  The usual arithmetic conversions of C++ are written out where the source mixes the
  two types: \<open>int_to_size\<close> is the sign-extending conversion \<^verbatim>\<open>int\<close> to
  \<^verbatim>\<open>std::size_t\<close>, \<open>size_to_int\<close> the narrowing conversion back, which keeps
  the low 32 bits.
\<close>

type_synonym cint = "32 word"
type_synonym size_t = "64 word"

definition int_to_size :: "cint \<Rightarrow> size_t" where
  "int_to_size x = scast x"

definition size_to_int :: "size_t \<Rightarrow> cint" where
  "size_to_int x = ucast x"

text \<open>Comparison of two \<^verbatim>\<open>int\<close> values is signed.\<close>

definition int_less :: "cint \<Rightarrow> cint \<Rightarrow> bool" where
  "int_less a b = (sint a < sint b)"

definition int_le :: "cint \<Rightarrow> cint \<Rightarrow> bool" where
  "int_le a b = (sint a \<le> sint b)"

text \<open>
  Division of two \<^verbatim>\<open>int\<close> values truncates towards zero (\<open>sdiv\<close> on \<open>int\<close>).
  The callers test the divisor first: division by zero is an error value of the model.
\<close>

definition int_div :: "cint \<Rightarrow> cint \<Rightarrow> cint" where
  "int_div a b = word_of_int (sint a sdiv sint b)"

text \<open>
  The outcomes other than a normal return: the \<^verbatim>\<open>std::runtime_error\<close> thrown by the
  constructor, with its message, and an integer division by zero.
\<close>

datatype error = RuntimeError string | DivisionByZero

section \<open>Interval\<close>

text \<open>
  The class has the two \<^verbatim>\<open>int\<close> fields \<^verbatim>\<open>start_\<close> and \<^verbatim>\<open>end_\<close>.
\<close>

record Interval =
  start_f :: cint
  end_f :: cint

text \<open>\<^verbatim>\<open>Interval::Interval(int start, int end)\<close>\<close>

definition Interval_new :: "cint \<Rightarrow> cint \<Rightarrow> error + Interval" where
  "Interval_new start end' =
     (if int_less start 0 \<or> int_less end' 0 then
        Inl (RuntimeError ''ERROR: in class interval (COSMA): start, end > 0 must be satisfied.'')
      else if int_less end' start then
        Inl (RuntimeError ''ERROR: in class interval (COSMA): start<=end must be satisfied.'')
      else Inr \<lparr>start_f = start, end_f = end'\<rparr>)"

definition first :: "Interval \<Rightarrow> cint" where
  "first I = start_f I"

definition last_f :: "Interval \<Rightarrow> cint" where
  "last_f I = end_f I"

text \<open>
  \<^verbatim>\<open>std::size_t Interval::length() { return end_ - start_ + 1; }\<close>: the expression is
  computed in \<^verbatim>\<open>int\<close> and converted to \<^verbatim>\<open>std::size_t\<close> on return.
\<close>

definition length_f :: "Interval \<Rightarrow> size_t" where
  "length_f I = int_to_size (end_f I - start_f I + 1)"

definition empty :: "Interval \<Rightarrow> bool" where
  "empty I = (start_f I = end_f I)"

definition only_one :: "Interval \<Rightarrow> bool" where
  "only_one I = (length_f I = 1)"

definition contains :: "Interval \<Rightarrow> cint \<Rightarrow> bool" where
  "contains I num = (int_le (first I) num \<and> int_le num (last_f I))"

definition contains_interval :: "Interval \<Rightarrow> Interval \<Rightarrow> bool" where
  "contains_interval I other = (int_le (first I) (first other) \<and> int_le (last_f other) (last_f I))"

definition before :: "Interval \<Rightarrow> Interval \<Rightarrow> bool" where
  "before I other = int_less (last_f I) (first other)"

text \<open>
  \<^verbatim>\<open>Interval::subinterval(int divisor, int box_index)\<close>. The test
  \<^verbatim>\<open>length() < divisor\<close> and the two quotients are computed in \<^verbatim>\<open>std::size_t\<close>
  (the \<^verbatim>\<open>int\<close> operands are converted), \<^verbatim>\<open>box_index + 1\<close> in \<^verbatim>\<open>int\<close>; the
  quotients are narrowed to the \<^verbatim>\<open>int\<close> variables \<^verbatim>\<open>start\<close> and \<^verbatim>\<open>end\<close>.
  The result goes through the throwing constructor.
\<close>

definition subinterval :: "Interval \<Rightarrow> cint \<Rightarrow> cint \<Rightarrow> error + Interval" where
  "subinterval I divisor box_index =
     (if length_f I < int_to_size divisor then Inr I
      else if int_to_size divisor = 0 then Inl DivisionByZero
      else
        let start = size_to_int (length_f I * int_to_size box_index div int_to_size divisor);
            end' = size_to_int (length_f I * int_to_size (box_index + 1) div int_to_size divisor - 1)
        in Interval_new (start_f I + start) (start_f I + end'))"

text \<open>
  \<^verbatim>\<open>Interval::divide_by(int divisor)\<close>. The loop
  \<^verbatim>\<open>for (int i = 0; i < divisor; i++) divided[i] = subinterval(divisor, i);\<close>
  fills a vector of \<^verbatim>\<open>divisor\<close> elements front to back; \<open>divide_by_loop\<close> is the loop
  from counter \<open>i\<close> on, returning the elements from index \<open>i\<close> on. An exception of
  \<open>subinterval\<close> leaves the loop.
\<close>

function divide_by_loop :: "Interval \<Rightarrow> cint \<Rightarrow> cint \<Rightarrow> error + Interval list" where
  "divide_by_loop I divisor i =
     (if int_less i divisor then
        (case subinterval I divisor i of
           Inl e \<Rightarrow> Inl e
         | Inr J \<Rightarrow>
             (case divide_by_loop I divisor (i + 1) of
                Inl e \<Rightarrow> Inl e
              | Inr Js \<Rightarrow> Inr (J # Js)))
      else Inr [])"
  by pat_completeness auto

termination
proof (relation "measure (\<lambda>(I, divisor, i). nat (sint divisor - sint i))", goal_cases)
  case 1
  show ?case by simp
next
  case (2 I divisor i J)
  then have lt: "sint i < sint divisor" by (simp add: int_less_def)
  have "sint divisor < 2 ^ 31" using sint_lt [of divisor] by simp
  moreover have "- (2 ^ 31) \<le> sint i" using sint_ge [of i] by simp
  ultimately have "sint (i + 1) = sint i + 1"
    using lt by (simp add: sint_word_ariths signed_take_bit_int_eq_self)
  with lt show ?case by simp
qed

declare divide_by_loop.simps [simp del]

definition divide_by :: "Interval \<Rightarrow> cint \<Rightarrow> error + Interval list" where
  "divide_by I divisor =
     (if length_f I < int_to_size divisor then Inr [I]
      else divide_by_loop I divisor 0)"

text \<open>
  \<^verbatim>\<open>Interval::locate_in_subinterval(int divisor, int elem)\<close>:
  \<^verbatim>\<open>length() / divisor\<close> is a \<^verbatim>\<open>std::size_t\<close> quotient narrowed to
  \<^verbatim>\<open>int subset_size\<close>; the other operations are \<^verbatim>\<open>int\<close> operations.
\<close>

definition subset_size :: "Interval \<Rightarrow> cint \<Rightarrow> cint" where
  "subset_size I divisor = size_to_int (length_f I div int_to_size divisor)"

definition locate_in_subinterval :: "Interval \<Rightarrow> cint \<Rightarrow> cint \<Rightarrow> error + (cint \<times> cint)" where
  "locate_in_subinterval I divisor elem =
     (if int_to_size divisor = 0 then Inl DivisionByZero
      else
        let relative = elem - first I in
        if subset_size I divisor = 0 then Inl DivisionByZero
        else
          let subint_index = int_div relative (subset_size I divisor);
              offset = relative - subint_index * subset_size I divisor
          in Inr (subint_index, offset))"

definition subinterval_index :: "Interval \<Rightarrow> cint \<Rightarrow> cint \<Rightarrow> error + cint" where
  "subinterval_index I divisor elem =
     (if int_to_size divisor = 0 then Inl DivisionByZero
      else
        let relative = elem - first I in
        if subset_size I divisor = 0 then Inl DivisionByZero
        else Inr (int_div relative (subset_size I divisor)))"

text \<open>\<^verbatim>\<open>Interval::locate_in_interval(int divisor, int subint_index, int subint_offset)\<close>\<close>

definition locate_in_interval :: "Interval \<Rightarrow> cint \<Rightarrow> cint \<Rightarrow> cint \<Rightarrow> error + cint" where
  "locate_in_interval I divisor subint_index subint_offset =
     (if int_to_size divisor = 0 then Inl DivisionByZero
      else Inr (subint_index * subset_size I divisor + subint_offset))"

text \<open>\<^verbatim>\<open>Interval::subinterval_containing(int divisor, int elem)\<close>\<close>

definition subinterval_containing :: "Interval \<Rightarrow> cint \<Rightarrow> cint \<Rightarrow> error + Interval" where
  "subinterval_containing I divisor elem =
     (case subinterval_index I divisor elem of
        Inl e \<Rightarrow> Inl e
      | Inr k \<Rightarrow> subinterval I divisor k)"

section \<open>Interval2D\<close>

record Interval2D =
  rows :: Interval
  cols :: Interval

definition contains2D :: "Interval2D \<Rightarrow> cint \<Rightarrow> cint \<Rightarrow> bool" where
  "contains2D R row col = (contains (rows R) row \<and> contains (cols R) col)"

text \<open>
  \<^verbatim>\<open>int Interval2D::local_index(int row, int col)\<close>: after the two \<^verbatim>\<open>int\<close>
  subtractions, \<^verbatim>\<open>col * rows.length() + row\<close> is computed in \<^verbatim>\<open>std::size_t\<close> and
  narrowed to the \<^verbatim>\<open>int\<close> result.
\<close>

definition local_index :: "Interval2D \<Rightarrow> cint \<Rightarrow> cint \<Rightarrow> cint" where
  "local_index R row col =
     (if \<not> contains2D R row col then - 1
      else
        let row' = row - first (rows R);
            col' = col - first (cols R)
        in size_to_int (int_to_size col' * length_f (rows R) + int_to_size row'))"

text \<open>\<^verbatim>\<open>Interval2D::submatrix(int divisor, int index)\<close>\<close>

definition submatrix :: "Interval2D \<Rightarrow> cint \<Rightarrow> cint \<Rightarrow> error + Interval2D" where
  "submatrix R divisor index =
     (case subinterval (cols R) divisor index of
        Inl e \<Rightarrow> Inl e
      | Inr c \<Rightarrow> Inr \<lparr>rows = rows R, cols = c\<rparr>)"

text \<open>
  \<^verbatim>\<open>std::size_t Interval2D::split_by(int divisor, int index)\<close>; the two error
  returns are \<^verbatim>\<open>-1\<close> converted to \<^verbatim>\<open>std::size_t\<close> (the messages printed there
  are not modelled).
\<close>

definition split_by :: "Interval2D \<Rightarrow> cint \<Rightarrow> cint \<Rightarrow> error + size_t" where
  "split_by R divisor index =
     (if int_le divisor index then Inr (- 1)
      else if length_f (cols R) < 0 \<or> length_f (cols R) < int_to_size divisor then Inr (- 1)
      else
        (case subinterval (cols R) divisor index of
           Inl e \<Rightarrow> Inl e
         | Inr c \<Rightarrow> Inr (length_f (rows R) * length_f c)))"


section \<open>Notions used to state the properties\<close>

text \<open>
  An interval object is \<open>constructed\<close> when it is what the two-argument constructor
  returns for its own fields, as opposed to an object of the defaulted constructor with
  arbitrary fields.
\<close>

definition constructed :: "Interval \<Rightarrow> bool" where
  "constructed I = (Interval_new (start_f I) (end_f I) = Inr I)"

text \<open>The integers an interval stands for, and how many they are.\<close>

definition elems :: "Interval \<Rightarrow> int set" where
  "elems I = {sint (start_f I) .. sint (end_f I)}"

definition num_elems :: "Interval \<Rightarrow> int" where
  "num_elems I = sint (end_f I) - sint (start_f I) + 1"

text \<open>
  The \<^verbatim>\<open>int\<close> expression \<^verbatim>\<open>end_ - start_ + 1\<close> of \<^verbatim>\<open>length()\<close> overflows on
  exactly one constructed interval, \<open>[0, 2\<^sup>3\<^sup>1 - 1]\<close>, where C++ leaves the behaviour
  undefined (the words of the model wrap there, as two's-complement hardware does).
  \<open>length_fits\<close> holds of every other constructed interval; the properties of the
  splitting operations are stated for these.
\<close>

definition length_fits :: "Interval \<Rightarrow> bool" where
  "length_fits I = (num_elems I < 2 ^ 31)"

text \<open>
  The range that the tie-breaking rule of the specification gives for piece \<open>k\<close> of
  \<open>d\<close>: from \<open>\<lfloor>L\<cdot>k/d\<rfloor>\<close> to \<open>\<lfloor>L\<cdot>(k+1)/d\<rfloor> - 1\<close>, relative to the start.
\<close>

definition piece :: "Interval \<Rightarrow> int \<Rightarrow> int \<Rightarrow> Interval" where
  "piece I d k =
     \<lparr>start_f = word_of_int (sint (start_f I) + num_elems I * k div d),
      end_f = word_of_int (sint (start_f I) + num_elems I * (k + 1) div d - 1)\<rparr>"

section \<open>Conversions between words and integers\<close>

lemma sint_succ_less:
  fixes i d :: cint
  assumes "sint i < sint d"
  shows "sint (i + 1) = sint i + 1"
proof -
  have "sint d < 2 ^ 31" using sint_lt [of d] by simp
  moreover have "- (2 ^ 31) \<le> sint i" using sint_ge [of i] by simp
  ultimately show ?thesis using assms
    by (simp add: sint_word_ariths signed_take_bit_int_eq_self)
qed

lemma sint_wi32: "- (2 ^ 31) \<le> k \<Longrightarrow> k < 2 ^ 31 \<Longrightarrow> sint (word_of_int k :: cint) = k"
  by (simp add: sint_sbintrunc' signed_take_bit_int_eq_self)

lemma sint_wi32_nonneg: "0 \<le> k \<Longrightarrow> k < 2 ^ 31 \<Longrightarrow> sint (word_of_int k :: cint) = k"
  by (simp add: sint_sbintrunc' signed_take_bit_int_eq_self)

lemma uint_wi64: "0 \<le> k \<Longrightarrow> k < 2 ^ 64 \<Longrightarrow> uint (word_of_int k :: size_t) = k"
  by (simp add: uint_word_of_int_eq take_bit_int_eq_self)

lemma sint_bounds32: "- (2 ^ 31) \<le> sint (x :: cint)" "sint (x :: cint) < 2 ^ 31"
  using sint_ge [of x] sint_lt [of x] by simp_all

lemma uint_int_to_size: "0 \<le> sint x \<Longrightarrow> uint (int_to_size x) = sint x"
proof -
  assume "0 \<le> sint x"
  moreover have "int_to_size x = word_of_int (sint x)"
    unfolding int_to_size_def by (rule scast_eq)
  moreover have "sint x < 2 ^ 64"
    using sint_bounds32(2) [of x] by simp
  ultimately show ?thesis by (simp only: uint_wi64)
qed

lemma sint_size_to_int: "uint x < 2 ^ 31 \<Longrightarrow> sint (size_to_int x) = uint x"
proof -
  assume "uint x < 2 ^ 31"
  moreover have "size_to_int x = word_of_int (uint x)"
    unfolding size_to_int_def by (rule ucast_eq)
  moreover have "- (2 ^ 31) \<le> uint x"
  proof -
    have "- (2 ^ 31) \<le> (0::int)" by simp
    also have "0 \<le> uint x" by simp
    finally show ?thesis .
  qed
  ultimately show ?thesis by (simp only: sint_wi32)
qed

lemma constructed_iff: "constructed I \<longleftrightarrow> 0 \<le> sint (start_f I) \<and> sint (start_f I) \<le> sint (end_f I)"
  by (auto simp: constructed_def Interval_new_def int_less_def)

lemma sint_add32: "- (2 ^ 31) \<le> sint a + sint b \<Longrightarrow> sint a + sint b < 2 ^ 31 \<Longrightarrow> sint (a + b :: cint) = sint a + sint b"
  by (simp add: sint_word_add signed_take_bit_int_eq_self)

lemma sint_sub32: "- (2 ^ 31) \<le> sint a - sint b \<Longrightarrow> sint a - sint b < 2 ^ 31 \<Longrightarrow> sint (a - b :: cint) = sint a - sint b"
  by (simp add: sint_word_diff signed_take_bit_int_eq_self)

lemma sint_length_arg:
  assumes "constructed I" "num_elems I < 2 ^ 31"
  shows "sint (end_f I - start_f I + 1) = num_elems I"
proof -
  from assms have b: "0 \<le> sint (start_f I)" "sint (start_f I) \<le> sint (end_f I)"
    by (simp_all add: constructed_iff)
  have d: "sint (end_f I - start_f I) = sint (end_f I) - sint (start_f I)"
    using b sint_bounds32 [of "end_f I"] by (intro sint_sub32) simp_all
  show ?thesis
    using b d assms(2) by (simp add: sint_add32 num_elems_def)
qed

lemma uint_length_f:
  assumes "constructed I" "num_elems I < 2 ^ 31"
  shows "uint (length_f I) = num_elems I"
proof -
  have "0 \<le> num_elems I" using assms(1) by (simp add: constructed_iff num_elems_def)
  then show ?thesis
    unfolding length_f_def using sint_length_arg [OF assms] by (simp add: uint_int_to_size)
qed

section \<open>The split points \<open>\<lfloor>L\<cdot>k/d\<rfloor>\<close>\<close>

lemma split_point_mono:
  fixes L d j k :: int
  assumes "0 \<le> L" "0 < d" "j \<le> k"
  shows "L * j div d \<le> L * k div d"
  by (intro zdiv_mono1 mult_left_mono assms)

lemma split_point_nonneg:
  fixes L d k :: int
  assumes "0 \<le> L" "0 < d" "0 \<le> k"
  shows "0 \<le> L * k div d"
  using assms by (simp add: pos_imp_zdiv_nonneg_iff)

lemma split_point_le:
  fixes L d k :: int
  assumes "0 \<le> L" "0 < d" "k \<le> d"
  shows "L * k div d \<le> L"
  using split_point_mono [OF assms(1,2,3)] assms(2) by simp

lemma split_point_step:
  fixes L d k :: int
  assumes "0 < d" "d \<le> L"
  shows "L * k div d < L * (k + 1) div d"
proof -
  have "d \<noteq> 0" using assms(1) by simp
  then have "L * k div d + 1 = (L * k + d) div d" by (simp add: div_add_self2)
  also have "\<dots> \<le> (L * k + L) div d" using assms by (intro zdiv_mono1) simp_all
  also have "L * k + L = L * (k + 1)" by (simp add: algebra_simps)
  finally show ?thesis by simp
qed

lemma prod_fits_size:
  fixes a b :: int
  assumes "0 \<le> a" "a < 2 ^ 31" "0 \<le> b" "b < 2 ^ 31"
  shows "a * b < 2 ^ 64"
proof -
  have "a * b \<le> 2 ^ 31 * 2 ^ 31"
    using assms by (intro mult_mono) simp_all
  also have "\<dots> < (2 ^ 64 :: int)" by simp
  finally show ?thesis .
qed

lemma uint_length_times:
  assumes "constructed I" "num_elems I < 2 ^ 31" "0 \<le> sint k"
  shows "uint (length_f I * int_to_size k) = num_elems I * sint k"
proof -
  have L: "uint (length_f I) = num_elems I" by (rule uint_length_f [OF assms(1,2)])
  have K: "uint (int_to_size k) = sint k" by (rule uint_int_to_size [OF assms(3)])
  have "0 \<le> num_elems I" using assms(1) by (simp add: constructed_iff num_elems_def)
  then have "num_elems I * sint k < 2 ^ 64"
    using assms(2,3) sint_bounds32(2) [of k] by (intro prod_fits_size) simp_all
  then have "uint (length_f I) * uint (int_to_size k) < 2 ^ LENGTH(64)"
    by (simp add: L K)
  then have "uint (length_f I * int_to_size k) = uint (length_f I) * uint (int_to_size k)"
    by (simp only: uint_mult_lem)
  then show ?thesis by (simp only: L K)
qed

lemma uint_quotient:
  assumes "constructed I" "num_elems I < 2 ^ 31" "0 \<le> sint k" "0 < sint d"
  shows "uint (length_f I * int_to_size k div int_to_size d) = num_elems I * sint k div sint d"
proof -
  have "0 \<le> sint d" using assms(4) by simp
  then have "uint (int_to_size d) = sint d" by (rule uint_int_to_size)
  then show ?thesis
    by (simp only: uint_div uint_length_times [OF assms(1,2,3)])
qed

lemma piece_bounds:
  assumes "constructed I" "0 < d" "d \<le> num_elems I" "0 \<le> k" "k < d"
  shows "sint (start_f I) \<le> sint (start_f I) + num_elems I * k div d"
    and "sint (start_f I) + num_elems I * k div d \<le> sint (start_f I) + num_elems I * (k + 1) div d - 1"
    and "sint (start_f I) + num_elems I * (k + 1) div d - 1 \<le> sint (end_f I)"
proof -
  have L: "0 \<le> num_elems I" using assms(2,3) by simp
  show "sint (start_f I) \<le> sint (start_f I) + num_elems I * k div d"
    using split_point_nonneg [OF L assms(2,4)] by simp
  show "sint (start_f I) + num_elems I * k div d \<le> sint (start_f I) + num_elems I * (k + 1) div d - 1"
    using split_point_step [OF assms(2,3), of k] by simp
  have "k + 1 \<le> d" using assms(5) by simp
  from split_point_le [OF L assms(2) this]
  show "sint (start_f I) + num_elems I * (k + 1) div d - 1 \<le> sint (end_f I)"
    by (simp add: num_elems_def)
qed

lemma sint_piece:
  assumes "constructed I" "0 < d" "d \<le> num_elems I" "0 \<le> k" "k < d"
  shows "sint (start_f (piece I d k)) = sint (start_f I) + num_elems I * k div d"
    and "sint (end_f (piece I d k)) = sint (start_f I) + num_elems I * (k + 1) div d - 1"
proof -
  note b = piece_bounds [OF assms]
  have s0: "0 \<le> sint (start_f I)" using assms(1) by (simp add: constructed_iff)
  have e1: "sint (end_f I) < 2 ^ 31" by (rule sint_bounds32)
  show "sint (start_f (piece I d k)) = sint (start_f I) + num_elems I * k div d"
    unfolding piece_def Interval.select_convs
    by (rule sint_wi32_nonneg) (use b s0 e1 in linarith)+
  show "sint (end_f (piece I d k)) = sint (start_f I) + num_elems I * (k + 1) div d - 1"
    unfolding piece_def Interval.select_convs
    by (rule sint_wi32_nonneg) (use b s0 e1 in linarith)+
qed

lemma piece_constructed:
  assumes "constructed I" "0 < d" "d \<le> num_elems I" "0 \<le> k" "k < d"
  shows "constructed (piece I d k)"
  using piece_bounds [OF assms] assms(1)
  by (simp add: constructed_iff sint_piece [OF assms])

lemma add_word_of_int32:
  "(w :: cint) + size_to_int x = word_of_int (sint w + uint x)"
proof -
  have "size_to_int x = (word_of_int (uint x) :: cint)"
    unfolding size_to_int_def by (rule ucast_eq)
  then show ?thesis by simp
qed

lemma subinterval_piece:
  assumes c: "constructed I" and f: "num_elems I < 2 ^ 31"
    and d: "0 < sint d" "sint d \<le> num_elems I"
    and i: "0 \<le> sint i" "sint i < sint d"
  shows "subinterval I d i = Inr (piece I (sint d) (sint i))"
proof -
  let ?L = "num_elems I"
  have L: "uint (length_f I) = ?L" by (rule uint_length_f [OF c f])
  have D: "uint (int_to_size d) = sint d" using d(1) by (intro uint_int_to_size) simp
  have not_less: "\<not> length_f I < int_to_size d"
    using d(2) by (simp add: word_less_alt L D)
  have nz: "int_to_size d \<noteq> 0"
  proof
    assume "int_to_size d = 0"
    then have "uint (int_to_size d) = 0" by simp
    with D d(1) show False by simp
  qed
  have i1: "sint (i + 1) = sint i + 1" by (rule sint_succ_less [OF i(2)])
  have q0: "uint (length_f I * int_to_size i div int_to_size d) = ?L * sint i div sint d"
    by (rule uint_quotient [OF c f i(1) d(1)])
  have "0 \<le> sint (i + 1)" using i(1) i1 by simp
  from uint_quotient [OF c f this d(1)]
  have q1: "uint (length_f I * int_to_size (i + 1) div int_to_size d) = ?L * (sint i + 1) div sint d"
    by (simp only: i1)
  have pos: "0 < ?L * (sint i + 1) div sint d"
    using split_point_step [OF d, of "sint i"] split_point_nonneg [of ?L "sint d" "sint i"] d i(1)
    by simp
  have "uint (1 :: size_t) \<le> uint (length_f I * int_to_size (i + 1) div int_to_size d)"
    using pos by (simp add: q1)
  then have "uint (length_f I * int_to_size (i + 1) div int_to_size d - 1)
      = uint (length_f I * int_to_size (i + 1) div int_to_size d) - uint (1 :: size_t)"
    by (simp only: uint_sub_lem)
  then have q1': "uint (length_f I * int_to_size (i + 1) div int_to_size d - 1) = ?L * (sint i + 1) div sint d - 1"
    by (simp add: q1)
  have fields: "start_f I + size_to_int (length_f I * int_to_size i div int_to_size d) = start_f (piece I (sint d) (sint i))"
    "start_f I + size_to_int (length_f I * int_to_size (i + 1) div int_to_size d - 1) = end_f (piece I (sint d) (sint i))"
    by (simp_all only: add_word_of_int32 q0 q1' piece_def Interval.select_convs add_diff_eq)
  have pc: "constructed (piece I (sint d) (sint i))"
    by (rule piece_constructed [OF c d i])
  have "subinterval I d i = Interval_new (start_f (piece I (sint d) (sint i))) (end_f (piece I (sint d) (sint i)))"
    unfolding subinterval_def using not_less nz by (simp only: fields Let_def if_False)
  also have "\<dots> = Inr (piece I (sint d) (sint i))"
    using pc by (simp only: constructed_def)
  finally show ?thesis .
qed


section \<open>The vector of pieces\<close>

lemma divide_by_loop_pieces:
  assumes "constructed I" "num_elems I < 2 ^ 31" "0 < sint d" "sint d \<le> num_elems I"
    and "0 \<le> sint i"
  shows "divide_by_loop I d i = Inr (map (piece I (sint d)) [sint i .. sint d - 1])"
  using assms
proof (induction I d i rule: divide_by_loop.induct)
  case (1 I d i)
  show ?case
  proof (cases "sint i < sint d")
    case True
    have sub: "subinterval I d i = Inr (piece I (sint d) (sint i))"
      by (rule subinterval_piece [OF "1.prems"(1-4) "1.prems"(5) True])
    have i1: "sint (i + 1) = sint i + 1" by (rule sint_succ_less [OF True])
    have less: "int_less i d" using True by (simp add: int_less_def)
    have "0 \<le> sint (i + 1)" using "1.prems"(5) i1 by simp
    from "1.IH" [OF less sub "1.prems"(1-4) this]
    have rest: "divide_by_loop I d (i + 1) = Inr (map (piece I (sint d)) [sint i + 1 .. sint d - 1])"
      by (simp only: i1)
    have "[sint i .. sint d - 1] = sint i # [sint i + 1 .. sint d - 1]"
      using True by (simp add: upto_rec1)
    then show ?thesis
      by (subst divide_by_loop.simps) (simp add: less sub rest)
  next
    case False
    then have "\<not> int_less i d" by (simp add: int_less_def)
    moreover have "[sint i .. sint d - 1] = []" using False by simp
    ultimately show ?thesis
      by (subst divide_by_loop.simps) simp
  qed
qed

lemma divide_by_pieces:
  assumes "constructed I" "num_elems I < 2 ^ 31" "0 < sint d" "sint d \<le> num_elems I"
  shows "divide_by I d = Inr (map (piece I (sint d)) [0 .. sint d - 1])"
proof -
  have L: "uint (length_f I) = num_elems I" by (rule uint_length_f [OF assms(1,2)])
  have D: "uint (int_to_size d) = sint d" using assms(3) by (intro uint_int_to_size) simp
  have "\<not> length_f I < int_to_size d"
    using assms(4) by (simp add: word_less_alt L D)
  then have "divide_by I d = divide_by_loop I d 0" by (simp add: divide_by_def)
  also have "\<dots> = Inr (map (piece I (sint d)) [sint (0 :: cint) .. sint d - 1])"
    by (rule divide_by_loop_pieces [OF assms]) simp
  finally show ?thesis by simp
qed

lemma pieces_nth:
  assumes "k < nat d"
  shows "map (piece I d) [0 .. d - 1] ! k = piece I d (int k)"
  using assms by (simp add: nth_upto)

lemma crossing:
  fixes f :: "nat \<Rightarrow> int"
  assumes "f 0 \<le> x" "x < f n"
  shows "\<exists>k<n. f k \<le> x \<and> x < f (Suc k)"
  using assms
proof (induction n)
  case 0
  then show ?case by simp
next
  case (Suc n)
  show ?case
  proof (cases "x < f n")
    case True
    with Suc obtain k where "k < n" "f k \<le> x" "x < f (Suc k)" by blast
    then show ?thesis by (intro exI [of _ k]) simp
  next
    case False
    with Suc.prems show ?thesis by (intro exI [of _ n]) simp
  qed
qed

lemma split_point_cover:
  fixes L d x :: int
  assumes "0 < d" "0 \<le> x" "x < L"
  shows "\<exists>k. 0 \<le> k \<and> k < d \<and> L * k div d \<le> x \<and> x < L * (k + 1) div d"
proof -
  let ?f = "\<lambda>k :: nat. L * int k div d"
  have "?f 0 \<le> x" using assms(2) by simp
  moreover have "x < ?f (nat d)" using assms(1,3) by simp
  ultimately obtain k where k: "k < nat d" "?f k \<le> x" "x < ?f (Suc k)"
    using crossing [of ?f x "nat d"] by blast
  have "int (Suc k) = int k + 1" by simp
  with k(3) have "x < L * (int k + 1) div d" by (simp only:)
  moreover have "int k < d" using k(1) by simp
  ultimately show ?thesis
    using k(2) by (intro exI [of _ "int k"]) simp
qed

lemma split_point_gap:
  fixes L d k :: int
  assumes "0 < d"
  shows "L div d \<le> L * (k + 1) div d - L * k div d"
    and "L * (k + 1) div d - L * k div d \<le> L div d + 1"
proof -
  have eq: "L * (k + 1) = L * k + L" by (simp add: algebra_simps)
  have e: "L * (k + 1) div d = L * k div d + L div d + (L * k mod d + L mod d) div d"
    unfolding eq by (rule div_add1_eq)
  have nn: "0 \<le> L * k mod d + L mod d" using assms by (simp add: add_nonneg_nonneg)
  then have lo: "0 \<le> (L * k mod d + L mod d) div d"
    using assms by (simp add: pos_imp_zdiv_nonneg_iff)
  have "L * k mod d < d" "L mod d < d" using assms by simp_all
  then have lt2: "L * k mod d + L mod d - d < d" by linarith
  have hi: "(L * k mod d + L mod d) div d \<le> 1"
  proof (cases "L * k mod d + L mod d < d")
    case True
    with nn show ?thesis by (simp add: div_pos_pos_trivial)
  next
    case False
    then have "0 \<le> L * k mod d + L mod d - d" by simp
    with lt2 have "(L * k mod d + L mod d - d) div d = 0"
      by (simp only: div_pos_pos_trivial)
    moreover have "(L * k mod d + L mod d - d + d) div d = (L * k mod d + L mod d - d) div d + 1"
      using assms by (intro div_add_self2) simp
    ultimately show ?thesis by simp
  qed
  show "L div d \<le> L * (k + 1) div d - L * k div d" using e lo by linarith
  show "L * (k + 1) div d - L * k div d \<le> L div d + 1" using e hi by linarith
qed

lemma split_point_last:
  fixes L d :: int
  assumes "0 < d"
  shows "L * d div d - L * (d - 1) div d = L div d + (if d dvd L then 0 else 1)"
proof -
  have "L * (d - 1) = - L + d * L" by (simp add: algebra_simps)
  then have "L * (d - 1) div d = (- L + d * L) div d" by (simp only:)
  also have "\<dots> = L + (- L) div d"
    using assms by (intro div_mult_self2) simp
  finally have "L * (d - 1) div d = (- L) div d + L" by simp
  moreover have "(- L) div d = - (L div d) - (if d dvd L then 0 else 1)"
    using assms by (simp add: zdiv_zminus1_eq_if dvd_eq_mod_eq_0)
  ultimately show ?thesis using assms by simp
qed


lemma piece_elems:
  assumes "constructed I" "0 < d" "d \<le> num_elems I" "0 \<le> k" "k < d"
  shows "elems (piece I d k)
     = {sint (start_f I) + num_elems I * k div d .. sint (start_f I) + num_elems I * (k + 1) div d - 1}"
  by (simp only: elems_def sint_piece [OF assms])

lemma piece_num_elems:
  assumes "constructed I" "0 < d" "d \<le> num_elems I" "0 \<le> k" "k < d"
  shows "num_elems (piece I d k) = num_elems I * (k + 1) div d - num_elems I * k div d"
  by (simp add: num_elems_def [of "piece I d k"] sint_piece [OF assms])

lemma piece_length:
  assumes "constructed I" "num_elems I < 2 ^ 31" "0 < d" "d \<le> num_elems I" "0 \<le> k" "k < d"
  shows "uint (length_f (piece I d k)) = num_elems I * (k + 1) div d - num_elems I * k div d"
proof -
  note a = assms(1,3-6)
  have c: "constructed (piece I d k)" by (rule piece_constructed [OF a])
  have L: "0 \<le> num_elems I" using assms(3,4) by simp
  have "k + 1 \<le> d" using assms(6) by simp
  from split_point_le [OF L assms(3) this] split_point_nonneg [OF L assms(3,5)]
  have "num_elems (piece I d k) \<le> num_elems I"
    by (simp add: piece_num_elems [OF a])
  with assms(2) have "num_elems (piece I d k) < 2 ^ 31" by linarith
  from uint_length_f [OF c this] show ?thesis
    by (simp only: piece_num_elems [OF a])
qed

lemma pieces_disjoint:
  assumes "constructed I" "0 < d" "d \<le> num_elems I" "0 \<le> j" "j < k" "k < d"
  shows "elems (piece I d j) \<inter> elems (piece I d k) = {}"
proof -
  have L: "0 \<le> num_elems I" using assms(2,3) by simp
  have j: "j < d" and k: "0 \<le> k" and jk: "j + 1 \<le> k" using assms(4,5,6) by simp_all
  from split_point_mono [OF L assms(2) jk]
  show ?thesis
    by (auto simp: piece_elems [OF assms(1,2,3,4) j] piece_elems [OF assms(1,2,3) k assms(6)])
qed

lemma pieces_union:
  assumes "constructed I" "0 < d" "d \<le> num_elems I"
  shows "(\<Union>k\<in>{0 .. d - 1}. elems (piece I d k)) = elems I"
proof (intro equalityI subsetI)
  fix x
  assume "x \<in> (\<Union>k\<in>{0 .. d - 1}. elems (piece I d k))"
  then obtain k where k: "0 \<le> k" "k < d" and x: "x \<in> elems (piece I d k)" by auto
  from x have "sint (start_f I) + num_elems I * k div d \<le> x"
    "x \<le> sint (start_f I) + num_elems I * (k + 1) div d - 1"
    by (simp_all only: piece_elems [OF assms k] atLeastAtMost_iff)
  with piece_bounds [OF assms k] show "x \<in> elems I"
    by (simp add: elems_def)
next
  fix x
  assume "x \<in> elems I"
  then have "0 \<le> x - sint (start_f I)" "x - sint (start_f I) < num_elems I"
    by (simp_all add: elems_def num_elems_def)
  from split_point_cover [OF assms(2) this]
  obtain k where k: "0 \<le> k" "k < d"
    and "num_elems I * k div d \<le> x - sint (start_f I)"
    and "x - sint (start_f I) < num_elems I * (k + 1) div d" by blast
  then have "x \<in> elems (piece I d k)"
    by (simp add: piece_elems [OF assms k])
  with k show "x \<in> (\<Union>k\<in>{0 .. d - 1}. elems (piece I d k))" by auto
qed

lemma pieces_adjacent:
  assumes "constructed I" "0 < d" "d \<le> num_elems I" "0 \<le> k" "k + 1 < d"
  shows "sint (start_f (piece I d (k + 1))) = sint (end_f (piece I d k)) + 1"
proof -
  have k: "k < d" and k1: "0 \<le> k + 1" using assms(4,5) by simp_all
  show ?thesis
    by (simp add: sint_piece [OF assms(1,2,3) k1 assms(5)] sint_piece [OF assms(1,2,3,4) k])
qed

lemma word_of_int_sint32: "word_of_int (sint w) = (w :: cint)"
  by simp


section \<open>Locating an element\<close>

lemma sdiv_nonneg:
  fixes a b :: int
  assumes "0 \<le> a" "0 < b"
  shows "a sdiv b = a div b"
  using assms by (simp add: signed_divide_int_def sgn_if)

lemma int_div_le_self:
  fixes a b :: int
  assumes "0 \<le> a" "0 < b"
  shows "a div b \<le> a"
  using zdiv_mono2 [of a 1 b] assms by simp

lemma sint_subset_size:
  assumes "constructed I" "num_elems I < 2 ^ 31" "0 < sint d" "sint d \<le> num_elems I"
  shows "sint (subset_size I d) = num_elems I div sint d"
proof -
  have L: "uint (length_f I) = num_elems I" by (rule uint_length_f [OF assms(1,2)])
  have D: "uint (int_to_size d) = sint d" using assms(3) by (intro uint_int_to_size) simp
  have q: "uint (length_f I div int_to_size d) = num_elems I div sint d"
    by (simp only: uint_div L D)
  have "num_elems I div sint d \<le> num_elems I"
    using assms(3,4) by (intro int_div_le_self) simp_all
  with assms(2) have "uint (length_f I div int_to_size d) < 2 ^ 31"
    unfolding q by linarith
  from sint_size_to_int [OF this] show ?thesis
    by (simp only: subset_size_def q)
qed

lemma subset_size_pos:
  assumes "constructed I" "num_elems I < 2 ^ 31" "0 < sint d" "sint d \<le> num_elems I"
  shows "0 < sint (subset_size I d)"
  using assms(3,4) by (simp add: sint_subset_size [OF assms] pos_imp_zdiv_pos_iff)

lemma sint_relative:
  assumes "constructed I" "contains I x"
  shows "sint (x - first I) = sint x - sint (start_f I)"
proof -
  from assms have "0 \<le> sint (start_f I)" "sint (start_f I) \<le> sint x"
    by (simp_all add: constructed_iff contains_def int_le_def first_def)
  then show ?thesis
    unfolding first_def using sint_bounds32 [of x] by (intro sint_sub32) linarith+
qed

lemma locate_in_subinterval_value:
  assumes "constructed I" "num_elems I < 2 ^ 31" "0 < sint d" "sint d \<le> num_elems I"
    and "contains I x"
  shows "\<exists>i off. locate_in_subinterval I d x = Inr (i, off)
     \<and> sint i = (sint x - sint (start_f I)) div (num_elems I div sint d)
     \<and> sint off = (sint x - sint (start_f I)) mod (num_elems I div sint d)"
proof -
  let ?rel = "sint x - sint (start_f I)" and ?ss = "num_elems I div sint d"
  have ss: "sint (subset_size I d) = ?ss" by (rule sint_subset_size [OF assms(1-4)])
  have sspos: "0 < ?ss" using subset_size_pos [OF assms(1-4)] by (simp only: ss)
  have ssnz: "subset_size I d \<noteq> 0"
  proof
    assume "subset_size I d = 0"
    then have "sint (subset_size I d) = 0" by simp
    with sspos ss show False by simp
  qed
  have D: "uint (int_to_size d) = sint d" using assms(3) by (intro uint_int_to_size) simp
  have dnz: "int_to_size d \<noteq> 0"
  proof
    assume "int_to_size d = 0"
    then have "uint (int_to_size d) = 0" by simp
    with D assms(3) show False by simp
  qed
  have rel: "sint (x - first I) = ?rel" by (rule sint_relative [OF assms(1,5)])
  have rel0: "0 \<le> ?rel" using assms(5) by (simp add: contains_def int_le_def first_def)
  have relb: "?rel < 2 ^ 31"
    using sint_bounds32(2) [of x] assms(1) by (simp add: constructed_iff)
  have q0: "0 \<le> ?rel div ?ss" using rel0 sspos by (simp add: pos_imp_zdiv_nonneg_iff)
  have qle: "?rel div ?ss \<le> ?rel" using rel0 sspos by (rule int_div_le_self)
  have "int_div (x - first I) (subset_size I d) = word_of_int (?rel div ?ss)"
    by (simp only: int_div_def rel ss sdiv_nonneg [OF rel0 sspos])
  moreover have "?rel div ?ss < 2 ^ 31" using qle relb by linarith
  ultimately have idx: "sint (int_div (x - first I) (subset_size I d)) = ?rel div ?ss"
    using q0 by (simp only: sint_wi32_nonneg)
  let ?i = "int_div (x - first I) (subset_size I d)"
  have m0: "0 \<le> ?rel mod ?ss" using sspos by simp
  have split: "?rel div ?ss * ?ss + ?rel mod ?ss = ?rel" by (rule div_mult_mod_eq)
  have p0: "0 \<le> ?rel div ?ss * ?ss" using q0 sspos by simp
  have ple: "?rel div ?ss * ?ss \<le> ?rel" using split m0 by linarith
  have "sint ?i * sint (subset_size I d) = ?rel div ?ss * ?ss" by (simp only: idx ss)
  moreover have "?rel div ?ss * ?ss < 2 ^ 31" using ple relb by linarith
  ultimately have prod: "sint (?i * subset_size I d) = ?rel div ?ss * ?ss"
    using p0 by (simp add: sint_word_mult signed_take_bit_int_eq_self)
  have d0: "0 \<le> ?rel - ?rel div ?ss * ?ss" using ple by simp
  have "?rel - ?rel div ?ss * ?ss < 2 ^ 31" using p0 relb by linarith
  with d0 have "sint (x - first I - ?i * subset_size I d) = ?rel - ?rel div ?ss * ?ss"
    using sint_sub32 [of "x - first I" "?i * subset_size I d"] by (simp add: rel prod)
  also have "\<dots> = ?rel mod ?ss" by (rule minus_div_mult_eq_mod)
  finally have off: "sint (x - first I - ?i * subset_size I d) = ?rel mod ?ss" .
  show ?thesis
    using dnz ssnz idx off by (simp add: locate_in_subinterval_def Let_def)
qed


section \<open>Splitting an interval\<close>

text \<open>
  Claim C1. For a constructed interval of length \<open>L\<close> (as \<^verbatim>\<open>length()\<close> returns it), a
  divisor \<open>d \<le> L\<close> and an index \<open>0 \<le> i < d\<close>, \<open>subinterval\<close> returns normally, and the
  interval it returns runs from \<open>\<lfloor>L\<cdot>i/d\<rfloor>\<close> to \<open>\<lfloor>L\<cdot>(i+1)/d\<rfloor> - 1\<close>, both relative to
  the start of the interval split. The two unit cases of the specification are the
  last conjuncts: \<open>Interval(0,9)\<close> is constructed, split in 3 it gives \<open>[0,2]\<close>, \<open>[3,5]\<close>, \<open>[6,9]\<close> and
  split in 4 it gives \<open>[0,1]\<close>, \<open>[2,4]\<close>, \<open>[5,6]\<close>, \<open>[7,9]\<close>.
\<close>

theorem subinterval_tie_breaking:
  assumes "constructed I" and "length_fits I"
    and "sint d \<le> uint (length_f I)" and "0 \<le> sint i" and "sint i < sint d"
  shows "(\<exists>J. subinterval I d i = Inr J
            \<and> sint (first J) = sint (first I) + uint (length_f I) * sint i div sint d
            \<and> sint (last_f J) = sint (first I) + uint (length_f I) * (sint i + 1) div sint d - 1)
         \<and> Interval_new 0 9 = Inr \<lparr>start_f = 0, end_f = 9\<rparr>
         \<and> map (subinterval \<lparr>start_f = 0, end_f = 9\<rparr> 3) [0, 1, 2]
             = [Inr \<lparr>start_f = 0, end_f = 2\<rparr>, Inr \<lparr>start_f = 3, end_f = 5\<rparr>,
                Inr \<lparr>start_f = 6, end_f = 9\<rparr>]
         \<and> map (subinterval \<lparr>start_f = 0, end_f = 9\<rparr> 4) [0, 1, 2, 3]
             = [Inr \<lparr>start_f = 0, end_f = 1\<rparr>, Inr \<lparr>start_f = 2, end_f = 4\<rparr>,
                Inr \<lparr>start_f = 5, end_f = 6\<rparr>, Inr \<lparr>start_f = 7, end_f = 9\<rparr>]"
proof (intro conjI)
  have f: "num_elems I < 2 ^ 31" using assms(2) by (simp add: length_fits_def)
  have L: "uint (length_f I) = num_elems I" by (rule uint_length_f [OF assms(1) f])
  have d: "0 < sint d" "sint d \<le> num_elems I" using assms(3,4,5) by (simp_all add: L)
  have sub: "subinterval I d i = Inr (piece I (sint d) (sint i))"
    by (rule subinterval_piece [OF assms(1) f d assms(4,5)])
  note sp = sint_piece [OF assms(1) d assms(4,5)]
  show "\<exists>J. subinterval I d i = Inr J
            \<and> sint (first J) = sint (first I) + uint (length_f I) * sint i div sint d
            \<and> sint (last_f J) = sint (first I) + uint (length_f I) * (sint i + 1) div sint d - 1"
    using sub sp by (simp add: first_def last_f_def L)
  show "Interval_new 0 9 = Inr \<lparr>start_f = 0, end_f = 9\<rparr>"
    by (simp add: Interval_new_def int_less_def)
  show "map (subinterval \<lparr>start_f = 0, end_f = 9\<rparr> 3) [0, 1, 2]
             = [Inr \<lparr>start_f = 0, end_f = 2\<rparr>, Inr \<lparr>start_f = 3, end_f = 5\<rparr>,
                Inr \<lparr>start_f = 6, end_f = 9\<rparr>]"
    by (simp add: subinterval_def length_f_def int_to_size_def size_to_int_def
        Interval_new_def int_less_def)
  show "map (subinterval \<lparr>start_f = 0, end_f = 9\<rparr> 4) [0, 1, 2, 3]
             = [Inr \<lparr>start_f = 0, end_f = 1\<rparr>, Inr \<lparr>start_f = 2, end_f = 4\<rparr>,
                Inr \<lparr>start_f = 5, end_f = 6\<rparr>, Inr \<lparr>start_f = 7, end_f = 9\<rparr>]"
    by (simp add: subinterval_def length_f_def int_to_size_def size_to_int_def
        Interval_new_def int_less_def)
qed

theorem subinterval_tie_breaking_witness:
  "constructed \<lparr>start_f = 10, end_f = 19\<rparr> \<and> length_fits \<lparr>start_f = 10, end_f = 19\<rparr>
   \<and> sint (4 :: cint) \<le> uint (length_f \<lparr>start_f = 10, end_f = 19\<rparr>)
   \<and> 0 \<le> sint (1 :: cint) \<and> sint (1 :: cint) < sint (4 :: cint)
   \<and> (\<exists>J. subinterval \<lparr>start_f = 10, end_f = 19\<rparr> 4 1 = Inr J
         \<and> sint (first J) = 12 \<and> sint (last_f J) = 14)"
proof -
  have h: "constructed \<lparr>start_f = 10, end_f = 19\<rparr>" "length_fits \<lparr>start_f = 10, end_f = 19\<rparr>"
    "sint (4 :: cint) \<le> uint (length_f \<lparr>start_f = 10, end_f = 19\<rparr>)"
    "0 \<le> sint (1 :: cint)" "sint (1 :: cint) < sint (4 :: cint)"
    by (simp_all add: constructed_def Interval_new_def int_less_def length_fits_def
        num_elems_def length_f_def int_to_size_def)
  have v: "uint (length_f \<lparr>start_f = 10, end_f = 19\<rparr>) = 10"
    by (simp add: length_f_def int_to_size_def)
  from subinterval_tie_breaking [OF h, THEN conjunct1]
  have "\<exists>J. subinterval \<lparr>start_f = 10, end_f = 19\<rparr> 4 1 = Inr J
         \<and> sint (first J) = 12 \<and> sint (last_f J) = 14"
    by (simp add: v first_def)
  with h show ?thesis by simp
qed

text \<open>
  Claim C2. For a constructed interval of length \<open>L\<close> and a divisor \<open>2 \<le> d \<le> L\<close>,
  \<open>divide_by\<close> returns normally a vector of exactly \<open>d\<close> intervals, the \<open>k\<close>-th being
  what \<open>subinterval\<close> returns for index \<open>k\<close>. They are nonempty ranges; the first starts
  where the interval starts, the last ends where it ends, and each starts right after
  the one before it ends; they are pairwise disjoint and their union is the interval;
  the lengths of any two of them differ by at most 1.
\<close>

theorem divide_by_partition:
  assumes "constructed I" and "length_fits I"
    and "2 \<le> sint d" and "sint d \<le> uint (length_f I)"
  shows "\<exists>Js. divide_by I d = Inr Js
      \<and> int (length Js) = sint d
      \<and> (\<forall>k < length Js. subinterval I d (of_nat k) = Inr (Js ! k) \<and> constructed (Js ! k))
      \<and> first (Js ! 0) = first I
      \<and> last_f (Js ! (length Js - 1)) = last_f I
      \<and> (\<forall>k. Suc k < length Js \<longrightarrow> sint (first (Js ! Suc k)) = sint (last_f (Js ! k)) + 1)
      \<and> (\<forall>j k. j < k \<and> k < length Js \<longrightarrow> elems (Js ! j) \<inter> elems (Js ! k) = {})
      \<and> (\<Union>J \<in> set Js. elems J) = elems I
      \<and> (\<forall>j < length Js. \<forall>k < length Js.
            uint (length_f (Js ! j)) \<le> uint (length_f (Js ! k)) + 1)"
proof -
  let ?d = "sint d" and ?L = "num_elems I"
  let ?Js = "map (piece I ?d) [0 .. ?d - 1]"
  have f: "?L < 2 ^ 31" using assms(2) by (simp add: length_fits_def)
  have L: "uint (length_f I) = ?L" by (rule uint_length_f [OF assms(1) f])
  have d: "0 < ?d" "?d \<le> ?L" using assms(3,4) by (simp_all add: L)
  note c = assms(1)
  have len: "length ?Js = nat ?d" by simp
  have nth: "?Js ! k = piece I ?d (int k)" if "k < nat ?d" for k
    using that by (rule pieces_nth)
  have idx: "0 \<le> int k" "int k < ?d" if "k < nat ?d" for k
    using that by simp_all
  have 1: "divide_by I d = Inr ?Js" by (rule divide_by_pieces [OF c f d])
  have 2: "int (length ?Js) = ?d" using d(1) by simp
  have 3: "subinterval I d (of_nat k) = Inr (?Js ! k) \<and> constructed (?Js ! k)"
    if "k < length ?Js" for k
  proof -
    from that have k: "k < nat ?d" by simp
    have "int k < 2 ^ 31" using idx(2) [OF k] sint_bounds32(2) [of d] by linarith
    then have s: "sint (of_nat k :: cint) = int k"
      using sint_wi32_nonneg [of "int k"] by simp
    have "subinterval I d (of_nat k) = Inr (piece I ?d (sint (of_nat k :: cint)))"
      using idx [OF k] by (intro subinterval_piece [OF c f d]) (simp_all only: s)
    then show ?thesis
      using piece_constructed [OF c d idx [OF k]] by (simp only: s nth [OF k] simp_thms)
  qed
  have 4: "first (?Js ! 0) = first I"
    using d(1) by (simp add: nth piece_def first_def)
  have 5: "last_f (?Js ! (length ?Js - 1)) = last_f I"
  proof -
    have k: "nat ?d - 1 < nat ?d" using d(1) by simp
    have "int (nat ?d - 1) + 1 = ?d" using d(1) by simp
    then have "end_f (piece I ?d (int (nat ?d - 1))) = word_of_int (sint (start_f I) + ?L * ?d div ?d - 1)"
      by (simp only: piece_def Interval.select_convs)
    also have "\<dots> = word_of_int (sint (end_f I))"
      using d(1) by (simp add: num_elems_def)
    finally show ?thesis
      by (simp only: len nth [OF k] last_f_def word_of_int_sint32)
  qed
  have 6: "sint (first (?Js ! Suc k)) = sint (last_f (?Js ! k)) + 1" if "Suc k < length ?Js" for k
  proof -
    from that have k1: "Suc k < nat ?d" and k: "k < nat ?d" by simp_all
    have e: "int (Suc k) = int k + 1" by simp
    have "int k + 1 < ?d" using k1 by simp
    from pieces_adjacent [OF c d idx(1) [OF k] this] show ?thesis
      by (simp only: nth [OF k] nth [OF k1] e first_def last_f_def)
  qed
  have 7: "elems (?Js ! j) \<inter> elems (?Js ! k) = {}" if "j < k \<and> k < length ?Js" for j k
  proof -
    from that have k: "k < nat ?d" and j: "j < nat ?d" and jk: "int j < int k" by simp_all
    from pieces_disjoint [OF c d idx(1) [OF j] jk idx(2) [OF k]] show ?thesis
      by (simp only: nth [OF k] nth [OF j])
  qed
  have 8: "(\<Union>J \<in> set ?Js. elems J) = elems I"
    using pieces_union [OF c d] by simp
  have 9: "uint (length_f (?Js ! j)) \<le> uint (length_f (?Js ! k)) + 1"
    if "j < length ?Js" "k < length ?Js" for j k
  proof -
    from that have j: "j < nat ?d" and k: "k < nat ?d" by simp_all
    have "uint (length_f (?Js ! j)) \<le> ?L div ?d + 1"
      using split_point_gap(2) [OF d(1), of ?L "int j"]
      by (simp only: nth [OF j] piece_length [OF c f d idx [OF j]])
    moreover have "?L div ?d \<le> uint (length_f (?Js ! k))"
      using split_point_gap(1) [OF d(1), of ?L "int k"]
      by (simp only: nth [OF k] piece_length [OF c f d idx [OF k]])
    ultimately show ?thesis by linarith
  qed
  show ?thesis
    using 1 2 3 4 5 6 7 8 9 by (intro exI [of _ ?Js]) blast
qed


theorem divide_by_partition_witness:
  "constructed \<lparr>start_f = 0, end_f = 9\<rparr> \<and> length_fits \<lparr>start_f = 0, end_f = 9\<rparr>
   \<and> 2 \<le> sint (4 :: cint) \<and> sint (4 :: cint) \<le> uint (length_f \<lparr>start_f = 0, end_f = 9\<rparr>)
   \<and> (\<exists>Js. divide_by \<lparr>start_f = 0, end_f = 9\<rparr> 4 = Inr Js
      \<and> int (length Js) = sint (4 :: cint)
      \<and> (\<forall>k < length Js. subinterval \<lparr>start_f = 0, end_f = 9\<rparr> 4 (of_nat k) = Inr (Js ! k)
            \<and> constructed (Js ! k))
      \<and> first (Js ! 0) = first \<lparr>start_f = 0, end_f = 9\<rparr>
      \<and> last_f (Js ! (length Js - 1)) = last_f \<lparr>start_f = 0, end_f = 9\<rparr>
      \<and> (\<forall>k. Suc k < length Js \<longrightarrow> sint (first (Js ! Suc k)) = sint (last_f (Js ! k)) + 1)
      \<and> (\<forall>j k. j < k \<and> k < length Js \<longrightarrow> elems (Js ! j) \<inter> elems (Js ! k) = {})
      \<and> (\<Union>J \<in> set Js. elems J) = elems \<lparr>start_f = 0, end_f = 9\<rparr>
      \<and> (\<forall>j < length Js. \<forall>k < length Js.
            uint (length_f (Js ! j)) \<le> uint (length_f (Js ! k)) + 1))"
proof -
  have h: "constructed \<lparr>start_f = 0, end_f = 9\<rparr>" "length_fits \<lparr>start_f = 0, end_f = 9\<rparr>"
    "2 \<le> sint (4 :: cint)" "sint (4 :: cint) \<le> uint (length_f \<lparr>start_f = 0, end_f = 9\<rparr>)"
    by (simp_all add: constructed_def Interval_new_def int_less_def length_fits_def
        num_elems_def length_f_def int_to_size_def)
  from h divide_by_partition [OF h] show ?thesis by (intro conjI)
qed

section \<open>Locating an element and back\<close>

text \<open>
  Claim C3, as amended. For a constructed interval, a divisor \<open>1 \<le> d \<le> L\<close> and an
  element \<open>x\<close> the interval contains, \<open>locate_in_subinterval\<close> returns a pair
  \<open>(i, off)\<close>, and \<open>locate_in_interval\<close> applied to that pair returns \<open>x - first()\<close>,
  the position of \<open>x\<close> relative to the start of the interval. It returns \<open>x\<close> itself
  exactly when the interval starts at 0.
\<close>

theorem locate_in_interval_relative:
  assumes "constructed I" and "length_fits I"
    and "0 < sint d" and "sint d \<le> uint (length_f I)" and "contains I x"
  shows "\<exists>i off. locate_in_subinterval I d x = Inr (i, off)
           \<and> locate_in_interval I d i off = Inr (x - first I)
           \<and> sint (x - first I) = sint x - sint (first I)
           \<and> (locate_in_interval I d i off = Inr x \<longleftrightarrow> sint (first I) = 0)"
proof -
  have f: "num_elems I < 2 ^ 31" using assms(2) by (simp add: length_fits_def)
  have L: "uint (length_f I) = num_elems I" by (rule uint_length_f [OF assms(1) f])
  have d: "sint d \<le> num_elems I" using assms(4) by (simp only: L)
  from locate_in_subinterval_value [OF assms(1) f assms(3) d assms(5)]
  obtain i off where loc: "locate_in_subinterval I d x = Inr (i, off)" by blast
  have D: "uint (int_to_size d) = sint d" using assms(3) by (intro uint_int_to_size) simp
  have dnz: "int_to_size d \<noteq> 0"
  proof
    assume "int_to_size d = 0"
    then have "uint (int_to_size d) = 0" by simp
    with D assms(3) show False by simp
  qed
  from loc dnz have io: "i = int_div (x - first I) (subset_size I d)"
    "off = x - first I - i * subset_size I d"
    by (auto simp: locate_in_subinterval_def Let_def split: if_splits)
  have rt: "locate_in_interval I d i off = Inr (x - first I)"
    using dnz by (simp add: locate_in_interval_def io(2))
  have rel: "sint (x - first I) = sint x - sint (first I)"
    using sint_relative [OF assms(1,5)] by (simp only: first_def)
  have "x - first I = x \<longleftrightarrow> first I = 0" by simp
  also have "\<dots> \<longleftrightarrow> sint (first I) = 0"
  proof
    assume "first I = 0"
    then show "sint (first I) = 0" by simp
  next
    assume "sint (first I) = 0"
    then have "word_of_int (sint (first I)) = (0 :: cint)" by simp
    then show "first I = 0" by (simp only: word_of_int_sint32)
  qed
  finally have "locate_in_interval I d i off = Inr x \<longleftrightarrow> sint (first I) = 0"
    by (simp only: rt sum.inject)
  with loc rt rel show ?thesis by blast
qed

theorem locate_in_interval_relative_witness:
  "constructed \<lparr>start_f = 5, end_f = 14\<rparr> \<and> length_fits \<lparr>start_f = 5, end_f = 14\<rparr>
   \<and> 0 < sint (2 :: cint) \<and> sint (2 :: cint) \<le> uint (length_f \<lparr>start_f = 5, end_f = 14\<rparr>)
   \<and> contains \<lparr>start_f = 5, end_f = 14\<rparr> 7
   \<and> (\<exists>i off. locate_in_subinterval \<lparr>start_f = 5, end_f = 14\<rparr> 2 7 = Inr (i, off)
         \<and> locate_in_interval \<lparr>start_f = 5, end_f = 14\<rparr> 2 i off = Inr 2)"
proof -
  have h: "constructed \<lparr>start_f = 5, end_f = 14\<rparr>" "length_fits \<lparr>start_f = 5, end_f = 14\<rparr>"
    "0 < sint (2 :: cint)" "sint (2 :: cint) \<le> uint (length_f \<lparr>start_f = 5, end_f = 14\<rparr>)"
    "contains \<lparr>start_f = 5, end_f = 14\<rparr> 7"
    by (simp_all add: constructed_def Interval_new_def int_less_def int_le_def length_fits_def
        num_elems_def length_f_def int_to_size_def contains_def first_def last_f_def)
  from locate_in_interval_relative [OF h]
  have "\<exists>i off. locate_in_subinterval \<lparr>start_f = 5, end_f = 14\<rparr> 2 7 = Inr (i, off)
         \<and> locate_in_interval \<lparr>start_f = 5, end_f = 14\<rparr> 2 i off = Inr 2"
    by (auto simp: first_def)
  with h show ?thesis by simp
qed


text \<open>
  Claim C3 as stated, that the round trip returns \<open>x\<close> itself, fails on
  \<open>Interval(5,14)\<close> with divisor 2 and element 7: the pair is \<open>(0, 2)\<close>, and
  \<open>locate_in_interval(2, 0, 2)\<close> is 2, not 7.
\<close>

theorem locate_in_interval_counterexample:
  "constructed \<lparr>start_f = 5, end_f = 14\<rparr>
   \<and> sint (2 :: cint) \<le> uint (length_f \<lparr>start_f = 5, end_f = 14\<rparr>)
   \<and> contains \<lparr>start_f = 5, end_f = 14\<rparr> 7
   \<and> locate_in_subinterval \<lparr>start_f = 5, end_f = 14\<rparr> 2 7 = Inr (0, 2)
   \<and> locate_in_interval \<lparr>start_f = 5, end_f = 14\<rparr> 2 0 2 = Inr 2
   \<and> locate_in_interval \<lparr>start_f = 5, end_f = 14\<rparr> 2 0 2 \<noteq> Inr 7"
  by (simp add: constructed_def Interval_new_def int_less_def int_le_def length_f_def
      int_to_size_def size_to_int_def contains_def first_def last_f_def
      locate_in_subinterval_def locate_in_interval_def subset_size_def int_div_def
      signed_divide_int_def)


text \<open>
  Claim C4 requires the index \<open>i\<close> that \<open>locate_in_subinterval(d, x)\<close> returns to be
  below \<open>d\<close> and \<open>subinterval(d, i)\<close> to hold \<open>x\<close> at the offset returned. The source
  computes index and offset from pieces of the uniform size \<open>\<lfloor>L/d\<rfloor>\<close>, which are not
  the pieces of \<open>subinterval\<close> when \<open>d\<close> does not divide \<open>L\<close>. On \<open>Interval(0,9)\<close>:
  element 9 with divisor 3 gets index 3, and \<open>subinterval_containing(3, 9)\<close>, documented
  as returning the interval containing the element, returns \<open>[10,12]\<close>; element 4 with
  divisor 4 gets \<open>(2, 0)\<close>, though piece 2 is \<open>[5,6]\<close>.
\<close>

theorem locate_in_subinterval_failing_input:
  "constructed \<lparr>start_f = 0, end_f = 9\<rparr>
   \<and> sint (3 :: cint) \<le> uint (length_f \<lparr>start_f = 0, end_f = 9\<rparr>)
   \<and> contains \<lparr>start_f = 0, end_f = 9\<rparr> 9
   \<and> locate_in_subinterval \<lparr>start_f = 0, end_f = 9\<rparr> 3 9 = Inr (3, 0)
   \<and> \<not> sint (3 :: cint) < sint (3 :: cint)
   \<and> subinterval_containing \<lparr>start_f = 0, end_f = 9\<rparr> 3 9 = Inr \<lparr>start_f = 10, end_f = 12\<rparr>
   \<and> \<not> contains \<lparr>start_f = 10, end_f = 12\<rparr> 9
   \<and> contains \<lparr>start_f = 0, end_f = 9\<rparr> 4
   \<and> locate_in_subinterval \<lparr>start_f = 0, end_f = 9\<rparr> 4 4 = Inr (2, 0)
   \<and> subinterval \<lparr>start_f = 0, end_f = 9\<rparr> 4 2 = Inr \<lparr>start_f = 5, end_f = 6\<rparr>
   \<and> first \<lparr>start_f = 5, end_f = 6\<rparr> + 0 \<noteq> 4"
  by (simp add: constructed_def Interval_new_def int_less_def int_le_def length_f_def
      int_to_size_def size_to_int_def contains_def first_def last_f_def
      locate_in_subinterval_def subinterval_containing_def subinterval_index_def
      subinterval_def subset_size_def int_div_def signed_divide_int_def)

text \<open>
  Where the divisor divides the length the uniform pieces are the pieces of
  \<open>subinterval\<close>, and there the index and the offset are the ones claim C4 describes.
\<close>

lemma locate_in_subinterval_divisible:
  assumes "constructed I" and "length_fits I"
    and "0 < sint d" and "sint d \<le> uint (length_f I)" and "sint d dvd uint (length_f I)"
    and "contains I x"
  shows "\<exists>i off J. locate_in_subinterval I d x = Inr (i, off)
      \<and> 0 \<le> sint i \<and> sint i < sint d
      \<and> subinterval I d i = Inr J
      \<and> sint (first J) + sint off = sint x
      \<and> 0 \<le> sint off \<and> sint off < uint (length_f J)"
proof -
  let ?d = "sint d" and ?L = "num_elems I"
  let ?rel = "sint x - sint (start_f I)" and ?ss = "num_elems I div sint d"
  have f: "?L < 2 ^ 31" using assms(2) by (simp add: length_fits_def)
  have L: "uint (length_f I) = ?L" by (rule uint_length_f [OF assms(1) f])
  have d: "0 < ?d" "?d \<le> ?L" using assms(3,4) by (simp_all add: L)
  have dv: "?d dvd ?L" using assms(5) by (simp only: L)
  then have Leq: "?L = ?d * ?ss" by simp
  have sspos: "0 < ?ss" using d by (simp add: pos_imp_zdiv_pos_iff)
  from locate_in_subinterval_value [OF assms(1) f d assms(6)]
  obtain i off where loc: "locate_in_subinterval I d x = Inr (i, off)"
    and i: "sint i = ?rel div ?ss" and off: "sint off = ?rel mod ?ss" by blast
  have rel0: "0 \<le> ?rel" using assms(6) by (simp add: contains_def int_le_def first_def)
  have relL: "?rel < ?L"
    using assms(6) by (simp add: contains_def int_le_def last_f_def num_elems_def)
  have i0: "0 \<le> sint i" using rel0 sspos by (simp add: i pos_imp_zdiv_nonneg_iff)
  have id: "sint i < ?d"
  proof (rule ccontr)
    assume "\<not> sint i < ?d"
    then have "?d \<le> ?rel div ?ss" by (simp add: i)
    then have "?d * ?ss \<le> ?rel div ?ss * ?ss" using sspos by (intro mult_right_mono) simp_all
    also have "\<dots> \<le> ?rel div ?ss * ?ss + ?rel mod ?ss" using sspos by simp
    also have "\<dots> = ?rel" by (rule div_mult_mod_eq)
    finally show False using relL Leq by simp
  qed
  have sub: "subinterval I d i = Inr (piece I ?d (sint i))"
    by (rule subinterval_piece [OF assms(1) f d i0 id])
  have pt: "?L * k div ?d = ?ss * k" for k
  proof -
    have "?d * ?ss * k = ?d * (?ss * k)" by (simp only: mult.assoc)
    with Leq have "?L * k = ?d * (?ss * k)" by (simp only:)
    then have "?L * k div ?d = ?d * (?ss * k) div ?d" by (simp only:)
    also have "\<dots> = ?ss * k" using d(1) by (intro nonzero_mult_div_cancel_left) simp
    finally show ?thesis .
  qed
  have st: "sint (start_f (piece I ?d (sint i))) = sint (start_f I) + ?ss * sint i"
    using sint_piece(1) [OF assms(1) d i0 id] by (simp only: pt)
  have "sint (first (piece I ?d (sint i))) + sint off
      = sint (start_f I) + ?ss * sint i + sint off"
    by (simp only: first_def st)
  also have "\<dots> = sint (start_f I) + (?ss * (?rel div ?ss) + ?rel mod ?ss)"
    by (simp only: i off add.assoc)
  also have "\<dots> = sint (start_f I) + ?rel" by (simp only: mult_div_mod_eq)
  also have "\<dots> = sint x" by simp
  finally have sum: "sint (first (piece I ?d (sint i))) + sint off = sint x" .
  have len: "uint (length_f (piece I ?d (sint i))) = ?ss"
    using piece_length [OF assms(1) f d i0 id] by (simp only: pt) (simp add: algebra_simps)
  have o0: "0 \<le> sint off" and ob: "sint off < ?ss" using sspos by (simp_all add: off)
  show ?thesis
    using loc i0 id sub sum o0 ob len by (intro exI [of _ i] exI [of _ off] exI [of _ "piece I ?d (sint i)"]) simp
qed

section \<open>Order of the piece lengths\<close>

text \<open>
  Claim C5, as amended. For a constructed interval of length \<open>L\<close>, a divisor \<open>d \<le> L\<close> and
  an index \<open>0 \<le> i < d\<close>, piece \<open>i\<close> has length \<open>\<lfloor>L\<cdot>(i+1)/d\<rfloor> - \<lfloor>L\<cdot>i/d\<rfloor>\<close>, which is
  \<open>\<lfloor>L/d\<rfloor>\<close> or \<open>\<lfloor>L/d\<rfloor> + 1\<close>. The two lengths are interleaved, as the comment in
  \<open>subinterval\<close> says: piece 0 has the smaller length \<open>\<lfloor>L/d\<rfloor>\<close> and piece \<open>d - 1\<close> the
  larger length \<open>\<lceil>L/d\<rceil>\<close>, so the lengths are non-increasing in the index only when
  \<open>d\<close> divides \<open>L\<close> and all pieces are equal.
\<close>

theorem subinterval_lengths_interleaved:
  assumes "constructed I" and "length_fits I"
    and "sint d \<le> uint (length_f I)" and "0 \<le> sint i" and "sint i < sint d"
  shows "\<exists>J. subinterval I d i = Inr J
      \<and> uint (length_f J)
          = uint (length_f I) * (sint i + 1) div sint d - uint (length_f I) * sint i div sint d
      \<and> uint (length_f I) div sint d \<le> uint (length_f J)
      \<and> uint (length_f J) \<le> uint (length_f I) div sint d + 1
      \<and> (sint i = 0 \<longrightarrow> uint (length_f J) = uint (length_f I) div sint d)
      \<and> (sint i = sint d - 1 \<longrightarrow>
            uint (length_f J)
              = uint (length_f I) div sint d + (if sint d dvd uint (length_f I) then 0 else 1))"
proof -
  let ?d = "sint d" and ?L = "num_elems I"
  have f: "?L < 2 ^ 31" using assms(2) by (simp add: length_fits_def)
  have L: "uint (length_f I) = ?L" by (rule uint_length_f [OF assms(1) f])
  have d: "0 < ?d" "?d \<le> ?L" using assms(3,4,5) by (simp_all add: L)
  have sub: "subinterval I d i = Inr (piece I ?d (sint i))"
    by (rule subinterval_piece [OF assms(1) f d assms(4,5)])
  have len: "uint (length_f (piece I ?d (sint i))) = ?L * (sint i + 1) div ?d - ?L * sint i div ?d"
    by (rule piece_length [OF assms(1) f d assms(4,5)])
  note gap = split_point_gap [OF d(1), of ?L "sint i"]
  have fst: "uint (length_f (piece I ?d (sint i))) = ?L div ?d" if "sint i = 0"
    using that len by simp
  have lst: "uint (length_f (piece I ?d (sint i))) = ?L div ?d + (if ?d dvd ?L then 0 else 1)"
    if "sint i = ?d - 1"
    using that len split_point_last [OF d(1), of ?L] by simp
  show ?thesis
    unfolding L using sub len gap fst lst by (intro exI [of _ "piece I ?d (sint i)"]) simp
qed

theorem subinterval_lengths_interleaved_witness:
  "constructed \<lparr>start_f = 0, end_f = 9\<rparr> \<and> length_fits \<lparr>start_f = 0, end_f = 9\<rparr>
   \<and> sint (3 :: cint) \<le> uint (length_f \<lparr>start_f = 0, end_f = 9\<rparr>)
   \<and> 0 \<le> sint (2 :: cint) \<and> sint (2 :: cint) < sint (3 :: cint)
   \<and> (\<exists>J. subinterval \<lparr>start_f = 0, end_f = 9\<rparr> 3 2 = Inr J \<and> uint (length_f J) = 4)"
proof -
  have h: "constructed \<lparr>start_f = 0, end_f = 9\<rparr>" "length_fits \<lparr>start_f = 0, end_f = 9\<rparr>"
    "sint (3 :: cint) \<le> uint (length_f \<lparr>start_f = 0, end_f = 9\<rparr>)"
    "0 \<le> sint (2 :: cint)" "sint (2 :: cint) < sint (3 :: cint)"
    by (simp_all add: constructed_def Interval_new_def int_less_def length_fits_def
        num_elems_def length_f_def int_to_size_def)
  have v: "uint (length_f \<lparr>start_f = 0, end_f = 9\<rparr>) = 10"
    by (simp add: length_f_def int_to_size_def)
  from subinterval_lengths_interleaved [OF h]
  have "\<exists>J. subinterval \<lparr>start_f = 0, end_f = 9\<rparr> 3 2 = Inr J \<and> uint (length_f J) = 4"
    by (auto simp: v)
  with h show ?thesis by simp
qed

text \<open>
  Claim C5 as stated, that the lengths are non-increasing in the index, fails on
  \<open>Interval(0,9)\<close> split in 3: piece 1 is \<open>[3,5]\<close> of length 3 and piece 2 is \<open>[6,9]\<close>
  of length 4.
\<close>

theorem subinterval_lengths_counterexample:
  "constructed \<lparr>start_f = 0, end_f = 9\<rparr>
   \<and> sint (3 :: cint) \<le> uint (length_f \<lparr>start_f = 0, end_f = 9\<rparr>)
   \<and> subinterval \<lparr>start_f = 0, end_f = 9\<rparr> 3 1 = Inr \<lparr>start_f = 3, end_f = 5\<rparr>
   \<and> subinterval \<lparr>start_f = 0, end_f = 9\<rparr> 3 2 = Inr \<lparr>start_f = 6, end_f = 9\<rparr>
   \<and> length_f \<lparr>start_f = 3, end_f = 5\<rparr> = 3
   \<and> length_f \<lparr>start_f = 6, end_f = 9\<rparr> = 4
   \<and> length_f \<lparr>start_f = 3, end_f = 5\<rparr> < length_f \<lparr>start_f = 6, end_f = 9\<rparr>"
  by (simp add: constructed_def subinterval_def length_f_def int_to_size_def size_to_int_def
      Interval_new_def int_less_def)

section \<open>The constructor\<close>

text \<open>
  Claim C6. \<open>Interval(a, b)\<close> throws its \<^verbatim>\<open>std::runtime_error\<close> if and only if
  \<open>a < 0\<close> or \<open>b < 0\<close> or \<open>a > b\<close>, and has no other failure. When it returns, the
  interval has the fields \<open>a\<close> and \<open>b\<close> with \<open>0 \<le> a \<le> b\<close>: a nonempty range of
  nonnegative integers.
\<close>

theorem Interval_new_fails_iff:
  "((\<exists>msg. Interval_new a b = Inl (RuntimeError msg))
      \<longleftrightarrow> sint a < 0 \<or> sint b < 0 \<or> sint b < sint a)
   \<and> (\<forall>I. Interval_new a b = Inr I \<longleftrightarrow>
         I = \<lparr>start_f = a, end_f = b\<rparr> \<and> 0 \<le> sint a \<and> sint a \<le> sint b)
   \<and> Interval_new a b \<noteq> Inl DivisionByZero
   \<and> (\<forall>I. Interval_new a b = Inr I \<longrightarrow>
         constructed I \<and> elems I \<noteq> {} \<and> (\<forall>x \<in> elems I. 0 \<le> x))"
  by (auto simp: Interval_new_def int_less_def constructed_def elems_def)

theorem Interval_new_fails_iff_witness:
  "Interval_new 2 7 = Inr \<lparr>start_f = 2, end_f = 7\<rparr>
   \<and> constructed \<lparr>start_f = 2, end_f = 7\<rparr> \<and> elems \<lparr>start_f = 2, end_f = 7\<rparr> \<noteq> {}
   \<and> 0 \<le> sint (2 :: cint) \<and> sint (2 :: cint) \<le> sint (7 :: cint)"
proof -
  have e: "Interval_new 2 7 = Inr \<lparr>start_f = 2, end_f = 7\<rparr>"
    by (simp add: Interval_new_def int_less_def)
  from Interval_new_fails_iff [of 2 7] e
  have "constructed \<lparr>start_f = 2, end_f = 7\<rparr> \<and> elems \<lparr>start_f = 2, end_f = 7\<rparr> \<noteq> {}"
    by blast
  with e show ?thesis by simp
qed

section \<open>Interval2D\<close>

lemma sint_size_to_int_gen: "sint (size_to_int w) = signed_take_bit 31 (uint w)"
proof -
  have "size_to_int w = word_of_int (uint w)"
    unfolding size_to_int_def by (rule ucast_eq)
  then have "sint (size_to_int w) = signed_take_bit (LENGTH(32) - 1) (uint w)"
    by (simp only: sint_sbintrunc')
  then show ?thesis by simp
qed

lemma local_index_uint:
  assumes "constructed (rows R)" "length_fits (rows R)" "constructed (cols R)"
    and "contains2D R r c"
  shows "local_index R r c
     = size_to_int (int_to_size (c - first (cols R)) * length_f (rows R) + int_to_size (r - first (rows R)))"
    and "uint (int_to_size (c - first (cols R)) * length_f (rows R) + int_to_size (r - first (rows R)))
     = (sint c - sint (first (cols R))) * uint (length_f (rows R)) + (sint r - sint (first (rows R)))"
proof -
  show "local_index R r c
     = size_to_int (int_to_size (c - first (cols R)) * length_f (rows R) + int_to_size (r - first (rows R)))"
    using assms(4) by (simp add: local_index_def Let_def)
  let ?RL = "num_elems (rows R)"
  have f: "?RL < 2 ^ 31" using assms(2) by (simp add: length_fits_def)
  have L: "uint (length_f (rows R)) = ?RL" by (rule uint_length_f [OF assms(1) f])
  have cr: "contains (rows R) r" and cc: "contains (cols R) c"
    using assms(4) by (simp_all add: contains2D_def)
  have r: "sint (r - first (rows R)) = sint r - sint (first (rows R))"
    using sint_relative [OF assms(1) cr] by (simp only: first_def)
  have c: "sint (c - first (cols R)) = sint c - sint (first (cols R))"
    using sint_relative [OF assms(3) cc] by (simp only: first_def)
  have r0: "0 \<le> sint r - sint (first (rows R))"
    using cr by (simp add: contains_def int_le_def)
  have c0: "0 \<le> sint c - sint (first (cols R))"
    using cc by (simp add: contains_def int_le_def)
  have rb: "sint r - sint (first (rows R)) < ?RL"
    using cr by (simp add: contains_def int_le_def num_elems_def first_def last_f_def)
  have cb: "sint c - sint (first (cols R)) < 2 ^ 31"
    using sint_bounds32(2) [of c] assms(3) by (simp add: constructed_iff first_def)
  have ur: "uint (int_to_size (r - first (rows R))) = sint r - sint (first (rows R))"
    using r0 by (simp add: uint_int_to_size r)
  have uc: "uint (int_to_size (c - first (cols R))) = sint c - sint (first (cols R))"
    using c0 by (simp add: uint_int_to_size c)
  have L0: "0 \<le> ?RL" using assms(1) by (simp add: constructed_iff num_elems_def)
  let ?v = "(sint c - sint (first (cols R))) * ?RL + (sint r - sint (first (rows R)))"
  have "(sint c - sint (first (cols R))) * ?RL \<le> 2 ^ 31 * 2 ^ 31"
    using c0 cb L0 f by (intro mult_mono) simp_all
  then have vb: "?v < 2 ^ 64" using rb f by simp
  have v0: "0 \<le> ?v" using c0 r0 L0 by simp
  have "uint (int_to_size (c - first (cols R)) * length_f (rows R) + int_to_size (r - first (rows R)))
      = take_bit 64 ?v"
    by (simp add: uint_word_arith_bintrs ur uc L take_bit_eq_mod mod_simps)
  also have "\<dots> = ?v" using v0 vb by (simp add: take_bit_int_eq_self)
  finally show "uint (int_to_size (c - first (cols R)) * length_f (rows R) + int_to_size (r - first (rows R)))
     = (sint c - sint (first (cols R))) * uint (length_f (rows R)) + (sint r - sint (first (rows R)))"
    by (simp only: L)
qed

text \<open>
  Claim C7, as amended. For a region whose row and column intervals are constructed
  and a coordinate \<open>(r, c)\<close> it contains, \<open>local_index\<close> returns the column-major
  position \<open>(c - cols.first)\<cdot>rows.length + (r - rows.first)\<close> narrowed to the 32 bits
  of its \<^verbatim>\<open>int\<close> result; it returns that position itself whenever the position is
  at most \<open>2\<^sup>3\<^sup>1 - 1\<close>.
\<close>

theorem local_index_column_major:
  assumes "constructed (rows R)" and "length_fits (rows R)" and "constructed (cols R)"
    and "contains2D R r c"
  shows "sint (local_index R r c)
       = signed_take_bit 31 ((sint c - sint (first (cols R))) * uint (length_f (rows R))
                              + (sint r - sint (first (rows R))))
     \<and> ((sint c - sint (first (cols R))) * uint (length_f (rows R))
            + (sint r - sint (first (rows R))) < 2 ^ 31
        \<longrightarrow> sint (local_index R r c)
            = (sint c - sint (first (cols R))) * uint (length_f (rows R))
                + (sint r - sint (first (rows R))))"
proof -
  let ?v = "(sint c - sint (first (cols R))) * uint (length_f (rows R))
              + (sint r - sint (first (rows R)))"
  note li = local_index_uint [OF assms]
  have s: "sint (local_index R r c) = signed_take_bit 31 ?v"
    by (simp only: li sint_size_to_int_gen)
  have "0 \<le> ?v"
    using li(2) uint_ge_0 [of "int_to_size (c - first (cols R)) * length_f (rows R) + int_to_size (r - first (rows R))"]
    by (simp only:)
  then have "signed_take_bit 31 ?v = ?v" if "?v < 2 ^ 31"
    using that by (intro signed_take_bit_int_eq_self) simp_all
  with s show ?thesis by simp
qed

theorem local_index_column_major_witness:
  "constructed \<lparr>start_f = 2, end_f = 4\<rparr> \<and> length_fits \<lparr>start_f = 2, end_f = 4\<rparr>
   \<and> constructed \<lparr>start_f = 10, end_f = 19\<rparr>
   \<and> contains2D \<lparr>rows = \<lparr>start_f = 2, end_f = 4\<rparr>, cols = \<lparr>start_f = 10, end_f = 19\<rparr>\<rparr> 3 12
   \<and> sint (local_index \<lparr>rows = \<lparr>start_f = 2, end_f = 4\<rparr>, cols = \<lparr>start_f = 10, end_f = 19\<rparr>\<rparr> 3 12) = 7"
proof -
  let ?R = "\<lparr>rows = \<lparr>start_f = 2, end_f = 4\<rparr>, cols = \<lparr>start_f = 10, end_f = 19\<rparr>\<rparr>"
  have h: "constructed (rows ?R)" "length_fits (rows ?R)" "constructed (cols ?R)"
    "contains2D ?R 3 12"
    by (simp_all add: constructed_def Interval_new_def int_less_def int_le_def length_fits_def
        num_elems_def contains2D_def contains_def first_def last_f_def)
  have v: "uint (length_f \<lparr>start_f = 2, end_f = 4\<rparr>) = 3"
    by (simp add: length_f_def int_to_size_def)
  from local_index_column_major [OF h, THEN conjunct2]
  have "sint (local_index ?R 3 12) = 7"
    by (simp add: v first_def)
  with h show ?thesis by simp
qed

text \<open>
  Claim C7 as stated, for every region, fails on the region of 65536 rows and 65536
  columns starting at 0: the position of \<open>(0, 32768)\<close> is \<open>2\<^sup>3\<^sup>1\<close>, and \<open>local_index\<close>
  returns \<open>- 2\<^sup>3\<^sup>1\<close>.
\<close>

theorem local_index_counterexample:
  "constructed \<lparr>start_f = 0, end_f = 65535\<rparr>
   \<and> contains2D \<lparr>rows = \<lparr>start_f = 0, end_f = 65535\<rparr>, cols = \<lparr>start_f = 0, end_f = 65535\<rparr>\<rparr>
        0 32768
   \<and> sint (local_index \<lparr>rows = \<lparr>start_f = 0, end_f = 65535\<rparr>,
                          cols = \<lparr>start_f = 0, end_f = 65535\<rparr>\<rparr> 0 32768) = - 2147483648
   \<and> (sint (32768 :: cint) - sint (first \<lparr>start_f = 0, end_f = 65535\<rparr>))
        * uint (length_f \<lparr>start_f = 0, end_f = 65535\<rparr>)
      + (sint (0 :: cint) - sint (first \<lparr>start_f = 0, end_f = 65535\<rparr>)) = 2147483648"
  by (simp add: constructed_def Interval_new_def int_less_def int_le_def contains2D_def
      contains_def first_def last_f_def local_index_def length_f_def int_to_size_def
      size_to_int_def)

text \<open>
  Claim C8. For a region whose column interval is constructed and has length at least
  \<open>d\<close>, and an index \<open>0 \<le> i < d\<close>, \<open>submatrix(d, i)\<close> returns normally the region with the
  same row interval and with the column interval \<open>cols.subinterval(d, i)\<close>; \<open>split_by\<close>
  returns the product of the two lengths of that region.
\<close>

theorem submatrix_splits_columns_only:
  assumes "constructed (cols R)" and "length_fits (cols R)"
    and "0 \<le> sint i" and "sint i < sint d" and "sint d \<le> uint (length_f (cols R))"
  shows "\<exists>c. subinterval (cols R) d i = Inr c
           \<and> submatrix R d i = Inr \<lparr>rows = rows R, cols = c\<rparr>
           \<and> split_by R d i = Inr (length_f (rows R) * length_f c)"
proof -
  have f: "num_elems (cols R) < 2 ^ 31" using assms(2) by (simp add: length_fits_def)
  have L: "uint (length_f (cols R)) = num_elems (cols R)" by (rule uint_length_f [OF assms(1) f])
  have d: "0 < sint d" "sint d \<le> num_elems (cols R)" using assms(3,4,5) by (simp_all add: L)
  have sub: "subinterval (cols R) d i = Inr (piece (cols R) (sint d) (sint i))"
    by (rule subinterval_piece [OF assms(1) f d assms(3,4)])
  have D: "uint (int_to_size d) = sint d" using d(1) by (intro uint_int_to_size) simp
  have n1: "\<not> int_le d i" using assms(4) by (simp add: int_le_def)
  have n2: "\<not> length_f (cols R) < int_to_size d"
    using d(2) by (simp add: word_less_alt L D)
  show ?thesis
    using sub n1 n2 by (simp add: submatrix_def split_by_def)
qed

theorem submatrix_splits_columns_only_witness:
  "constructed \<lparr>start_f = 0, end_f = 9\<rparr> \<and> length_fits \<lparr>start_f = 0, end_f = 9\<rparr>
   \<and> 0 \<le> sint (1 :: cint) \<and> sint (1 :: cint) < sint (3 :: cint)
   \<and> sint (3 :: cint) \<le> uint (length_f \<lparr>start_f = 0, end_f = 9\<rparr>)
   \<and> submatrix \<lparr>rows = \<lparr>start_f = 4, end_f = 7\<rparr>, cols = \<lparr>start_f = 0, end_f = 9\<rparr>\<rparr> 3 1
       = Inr \<lparr>rows = \<lparr>start_f = 4, end_f = 7\<rparr>, cols = \<lparr>start_f = 3, end_f = 5\<rparr>\<rparr>"
proof -
  let ?R = "\<lparr>rows = \<lparr>start_f = 4, end_f = 7\<rparr>, cols = \<lparr>start_f = 0, end_f = 9\<rparr>\<rparr>"
  have h: "constructed (cols ?R)" "length_fits (cols ?R)"
    "0 \<le> sint (1 :: cint)" "sint (1 :: cint) < sint (3 :: cint)"
    "sint (3 :: cint) \<le> uint (length_f (cols ?R))"
    by (simp_all add: constructed_def Interval_new_def int_less_def length_fits_def
        num_elems_def length_f_def int_to_size_def)
  have e: "subinterval \<lparr>start_f = 0, end_f = 9\<rparr> 3 1 = Inr \<lparr>start_f = 3, end_f = 5\<rparr>"
    by (simp add: subinterval_def length_f_def int_to_size_def size_to_int_def
        Interval_new_def int_less_def)
  from submatrix_splits_columns_only [OF h]
  have "submatrix ?R 3 1 = Inr \<lparr>rows = \<lparr>start_f = 4, end_f = 7\<rparr>, cols = \<lparr>start_f = 3, end_f = 5\<rparr>\<rparr>"
    by (auto simp: e)
  with h show ?thesis by simp
qed

section \<open>A divisor larger than the length\<close>

text \<open>
  Claim C9. When the divisor exceeds the length of the interval, \<open>subinterval\<close> returns
  the interval itself whatever the index is, and \<open>divide_by\<close> returns the vector
  holding the interval alone; neither throws.
\<close>

theorem divisor_exceeds_length:
  assumes "uint (length_f I) < sint d"
  shows "subinterval I d i = Inr I \<and> divide_by I d = Inr [I]"
proof -
  have "0 \<le> uint (length_f I)" by simp
  with assms have "0 \<le> sint d" by linarith
  then have "uint (int_to_size d) = sint d" by (rule uint_int_to_size)
  with assms have "length_f I < int_to_size d" by (simp add: word_less_alt)
  then show ?thesis by (simp add: subinterval_def divide_by_def)
qed

theorem divisor_exceeds_length_witness:
  "uint (length_f \<lparr>start_f = 0, end_f = 9\<rparr>) < sint (11 :: cint)
   \<and> subinterval \<lparr>start_f = 0, end_f = 9\<rparr> 11 5 = Inr \<lparr>start_f = 0, end_f = 9\<rparr>
   \<and> divide_by \<lparr>start_f = 0, end_f = 9\<rparr> 11 = Inr [\<lparr>start_f = 0, end_f = 9\<rparr>]"
proof -
  have h: "uint (length_f \<lparr>start_f = 0, end_f = 9\<rparr>) < sint (11 :: cint)"
    by (simp add: length_f_def int_to_size_def)
  from h divisor_exceeds_length [OF h, of 5] show ?thesis by simp
qed

section \<open>empty and only_one\<close>

lemma int_to_size_eq_one: "int_to_size x = 1 \<longleftrightarrow> x = 1"
proof
  assume "int_to_size x = 1"
  then have "sint (scast x :: size_t) = sint (1 :: size_t)" by (simp add: int_to_size_def)
  moreover have "sint (scast x :: size_t) = sint x"
    by (rule sint_up_scast) (simp add: is_up)
  ultimately have "sint x = 1" by simp
  then have "word_of_int (sint x) = (1 :: cint)" by simp
  then show "x = 1" by (simp only: word_of_int_sint32)
next
  assume "x = 1"
  then show "int_to_size x = 1" by (simp add: int_to_size_def)
qed

text \<open>
  Claim C10. \<open>empty()\<close> and \<open>only_one()\<close> agree on every interval. On a constructed
  interval, which always has an element, \<open>empty()\<close> is true if and only if the interval
  has exactly one element, the one at its start.
\<close>

theorem empty_iff_only_one:
  "(empty I \<longleftrightarrow> only_one I)
   \<and> (constructed I \<longrightarrow> elems I \<noteq> {} \<and> (empty I \<longleftrightarrow> card (elems I) = 1)
                          \<and> (empty I \<longleftrightarrow> elems I = {sint (first I)}))"
proof (intro conjI impI)
  have "only_one I \<longleftrightarrow> end_f I - start_f I + 1 = 1"
    by (simp only: only_one_def length_f_def int_to_size_eq_one)
  also have "\<dots> \<longleftrightarrow> start_f I = end_f I" by auto
  finally show "empty I \<longleftrightarrow> only_one I" by (simp only: empty_def)
next
  assume "constructed I"
  then have le: "sint (start_f I) \<le> sint (end_f I)" by (simp add: constructed_iff)
  then show "elems I \<noteq> {}" by (simp add: elems_def)
  have eq: "start_f I = end_f I \<longleftrightarrow> sint (start_f I) = sint (end_f I)"
  proof
    assume "sint (start_f I) = sint (end_f I)"
    then have "word_of_int (sint (start_f I)) = (word_of_int (sint (end_f I)) :: cint)"
      by (simp only:)
    then show "start_f I = end_f I" by (simp only: word_of_int_sint32)
  qed simp
  show "empty I \<longleftrightarrow> card (elems I) = 1"
    using le by (simp add: empty_def elems_def eq) linarith
  show "empty I \<longleftrightarrow> elems I = {sint (first I)}"
    using le by (auto simp: empty_def elems_def eq first_def)
qed

theorem empty_iff_only_one_witness:
  "constructed \<lparr>start_f = 3, end_f = 3\<rparr> \<and> empty \<lparr>start_f = 3, end_f = 3\<rparr>
   \<and> only_one \<lparr>start_f = 3, end_f = 3\<rparr> \<and> card (elems \<lparr>start_f = 3, end_f = 3\<rparr>) = 1
   \<and> constructed \<lparr>start_f = 3, end_f = 4\<rparr> \<and> \<not> empty \<lparr>start_f = 3, end_f = 4\<rparr>
   \<and> \<not> only_one \<lparr>start_f = 3, end_f = 4\<rparr> \<and> card (elems \<lparr>start_f = 3, end_f = 4\<rparr>) \<noteq> 1"
proof -
  have h: "constructed \<lparr>start_f = 3, end_f = 3\<rparr>" "constructed \<lparr>start_f = 3, end_f = 4\<rparr>"
    "empty \<lparr>start_f = 3, end_f = 3\<rparr>" "\<not> empty \<lparr>start_f = 3, end_f = 4\<rparr>"
    by (simp_all add: constructed_def Interval_new_def int_less_def empty_def)
  from h empty_iff_only_one [of "\<lparr>start_f = 3, end_f = 3\<rparr>"]
    empty_iff_only_one [of "\<lparr>start_f = 3, end_f = 4\<rparr>"]
  show ?thesis by blast
qed

end
